theory Spec2Isabelle
  imports Main "HOL-Library.FSet"
begin

section \<open>JavaScript values used by the rank calculator\<close>

text \<open>
  The calculator (\<^verbatim>\<open>src/app.js\<close>) works on strings and on JavaScript numbers.

  \<^item> A string is a \<open>string\<close>; one \<open>char\<close> stands for one code unit of the source
    string (the code units below 256).
  \<^item> A value that may be \<^verbatim>\<open>undefined\<close> or \<^verbatim>\<open>null\<close> is an \<open>option\<close>.
  \<^item> A number is a \<open>jsnum\<close>: \<open>NaN\<close>, or a finite value held as an exact rational.
    The rounding of IEEE doubles, the two infinities and the negative zero are not
    part of this type: the embedding follows the source wherever its intermediate
    values are doubles that arithmetic does not round (integers below \<open>2^53\<close>,
    halves, the decimal constants of the band table taken as the decimals they
    denote).
  \<^item> The result of \<^verbatim>\<open>parseInt\<close> is an \<open>int option\<close>, \<open>None\<close> standing for \<open>NaN\<close>.
\<close>

datatype jsnum = NaN | Num rat

definition isWhite :: "char \<Rightarrow> bool" where
  "isWhite c \<longleftrightarrow> (of_char c :: nat) \<in> {9, 10, 11, 12, 13, 32, 160}"

definition isDigit :: "char \<Rightarrow> bool" where
  "isDigit c \<longleftrightarrow> 48 \<le> (of_char c :: nat) \<and> (of_char c :: nat) \<le> 57"

definition digitVal :: "char \<Rightarrow> nat" where
  "digitVal c = of_char c - 48"

definition decValue :: "string \<Rightarrow> nat" where
  "decValue ds = foldl (\<lambda>n c. 10 * n + digitVal c) 0 ds"

definition trimStart :: "string \<Rightarrow> string" where
  "trimStart s = dropWhile isWhite s"

definition trimEnd :: "string \<Rightarrow> string" where
  "trimEnd s = rev (dropWhile isWhite (rev s))"

definition trim :: "string \<Rightarrow> string" where
  "trim s = trimEnd (trimStart s)"

text \<open>
  \<^verbatim>\<open>toUpperCase\<close> on one character. Only the comparison with \<open>W\<close>, \<open>D\<close> and \<open>L\<close>
  is used by the source, and the only characters whose upper case is one of these
  three are the ASCII letters themselves.
\<close>

definition toUpperCase :: "char \<Rightarrow> char" where
  "toUpperCase c =
     (if 97 \<le> (of_char c :: nat) \<and> (of_char c :: nat) \<le> 122
      then char_of ((of_char c :: nat) - 32) else c)"

text \<open>
  \<^verbatim>\<open>parseInt(s, 10)\<close>: leading white space is skipped, one sign is accepted, and the
  longest run of decimal digits that follows is the value; whatever comes after the
  run is ignored. With no digit at that place the result is \<open>NaN\<close>. The value is kept
  as the exact integer; the source holds it in a double, which is the same number for
  runs worth less than \<open>2^53\<close>.
\<close>

definition parseInt10 :: "string \<Rightarrow> int option" where
  "parseInt10 s =
     (let t = dropWhile isWhite s;
          neg = (t \<noteq> [] \<and> hd t = CHR ''-'');
          u = (if t \<noteq> [] \<and> (hd t = CHR ''-'' \<or> hd t = CHR ''+'') then tl t else t);
          ds = takeWhile isDigit u
      in if ds = [] then None
         else Some (if neg then - int (decValue ds) else int (decValue ds)))"

text \<open>\<^verbatim>\<open>parseInt(x, 10)\<close> on a cell that may be missing: \<^verbatim>\<open>undefined\<close> reads as the
  text \<^verbatim>\<open>"undefined"\<close>, which has no digit.\<close>

definition parseIntCell :: "string option \<Rightarrow> int option" where
  "parseIntCell x = (case x of None \<Rightarrow> None | Some s \<Rightarrow> parseInt10 s)"

section \<open>The opponent token parser\<close>

text \<open>
  \<^verbatim>\<open>
  function parseOpponentToken(token) {
    if (token === undefined || token === null) return { opponentId: null, display: "" };
    const raw = String(token).trim();
    if (!raw) return { opponentId: null, display: "" };
    const first = raw[0].toUpperCase();
    const maybeNumber = first === "W" || first === "D" || first === "L" ? raw.slice(1) : raw;
    const opponentId = parseInt(maybeNumber, 10);
    return { opponentId: Number.isFinite(opponentId) ? opponentId : null, display: raw };
  }
  \<close>
\<close>

record opponentToken =
  opponentId :: "int option"
  display :: string

definition isMarker :: "char \<Rightarrow> bool" where
  "isMarker c \<longleftrightarrow>
     toUpperCase c = CHR ''W'' \<or> toUpperCase c = CHR ''D'' \<or> toUpperCase c = CHR ''L''"

definition maybeNumber :: "string \<Rightarrow> string" where
  "maybeNumber raw = (if raw \<noteq> [] \<and> isMarker (hd raw) then tl raw else raw)"

definition parseOpponentToken :: "string option \<Rightarrow> opponentToken" where
  "parseOpponentToken token =
     (case token of
        None \<Rightarrow> \<lparr>opponentId = None, display = ''''\<rparr>
      | Some t \<Rightarrow>
          (let raw = trim t in
           if raw = [] then \<lparr>opponentId = None, display = ''''\<rparr>
           else \<lparr>opponentId = parseInt10 (maybeNumber raw), display = raw\<rparr>))"

text \<open>A string has a leading integer when, after white space and one optional sign,
  a decimal digit follows.\<close>

definition hasLeadingInt :: "string \<Rightarrow> bool" where
  "hasLeadingInt s =
     (let t = dropWhile isWhite s;
          u = (if t \<noteq> [] \<and> (hd t = CHR ''-'' \<or> hd t = CHR ''+'') then tl t else t)
      in u \<noteq> [] \<and> isDigit (hd u))"

section \<open>Numbers\<close>

text \<open>Arithmetic and comparison on numbers: \<open>NaN\<close> is absorbing for the operations
  and makes every comparison false.\<close>

fun jsAdd :: "jsnum \<Rightarrow> jsnum \<Rightarrow> jsnum" where
  "jsAdd (Num a) (Num b) = Num (a + b)"
| "jsAdd _ _ = NaN"

fun jsSub :: "jsnum \<Rightarrow> jsnum \<Rightarrow> jsnum" where
  "jsSub (Num a) (Num b) = Num (a - b)"
| "jsSub _ _ = NaN"

fun jsMul :: "jsnum \<Rightarrow> jsnum \<Rightarrow> jsnum" where
  "jsMul (Num a) (Num b) = Num (a * b)"
| "jsMul _ _ = NaN"

text \<open>The quotient is only taken by a positive divisor in the source; a zero divisor,
  which would give an infinity there, is given \<open>NaN\<close> here and is never reached.\<close>

fun jsDiv :: "jsnum \<Rightarrow> jsnum \<Rightarrow> jsnum" where
  "jsDiv (Num a) (Num b) = (if b = 0 then NaN else Num (a / b))"
| "jsDiv _ _ = NaN"

fun jsGe :: "jsnum \<Rightarrow> jsnum \<Rightarrow> bool" where
  "jsGe (Num a) (Num b) \<longleftrightarrow> a \<ge> b"
| "jsGe _ _ \<longleftrightarrow> False"

fun jsLe :: "jsnum \<Rightarrow> jsnum \<Rightarrow> bool" where
  "jsLe (Num a) (Num b) \<longleftrightarrow> a \<le> b"
| "jsLe _ _ \<longleftrightarrow> False"

fun jsGt :: "jsnum \<Rightarrow> jsnum \<Rightarrow> bool" where
  "jsGt (Num a) (Num b) \<longleftrightarrow> a > b"
| "jsGt _ _ \<longleftrightarrow> False"

fun jsAbs :: "jsnum \<Rightarrow> jsnum" where
  "jsAbs (Num a) = Num \<bar>a\<bar>"
| "jsAbs NaN = NaN"

text \<open>\<^verbatim>\<open>Math.ceil\<close>, and \<^verbatim>\<open>Math.round\<close>, which rounds a half towards plus infinity.\<close>

fun jsCeil :: "jsnum \<Rightarrow> jsnum" where
  "jsCeil (Num a) = Num (of_int \<lceil>a\<rceil>)"
| "jsCeil NaN = NaN"

fun jsRound :: "jsnum \<Rightarrow> jsnum" where
  "jsRound (Num a) = Num (of_int \<lfloor>a + 1 / 2\<rfloor>)"
| "jsRound NaN = NaN"

definition ofInt :: "int option \<Rightarrow> jsnum" where
  "ofInt x = (case x of None \<Rightarrow> NaN | Some n \<Rightarrow> Num (of_int n))"

text \<open>Decimal rendering of a natural number, most significant digit first.\<close>

fun showNat :: "nat \<Rightarrow> string" where
  "showNat n =
     (if n < 10 then [char_of (48 + n)]
      else showNat (n div 10) @ [char_of (48 + n mod 10)])"

declare showNat.simps [simp del]

text \<open>
  \<^verbatim>\<open>x.toFixed(1)\<close>: the sign, then the integer \<open>n\<close> with \<open>n / 10\<close> nearest to \<open>|x|\<close>
  (the larger one at a tie), written with one digit after the point. \<open>NaN\<close> is
  written \<^verbatim>\<open>NaN\<close>. (From \<open>10^21\<close> on the source switches to exponent notation; the
  embedding keeps the plain digits.)
\<close>

definition toFixed1 :: "jsnum \<Rightarrow> string" where
  "toFixed1 x =
     (case x of
        NaN \<Rightarrow> ''NaN''
      | Num q \<Rightarrow>
          (let n = nat \<lfloor>10 * \<bar>q\<bar> + 1 / 2\<rfloor>
           in (if q < 0 then ''-'' else []) @ showNat (n div 10) @ ''.'' @ showNat (n mod 10)))"

text \<open>
  Reading a decimal literal at the start of a string: an optional sign, digits with an
  optional fraction (or a fraction alone), and an optional exponent. The result is the
  value and the text left over. The literal \<^verbatim>\<open>Infinity\<close> is outside the number type.
\<close>

definition pow10 :: "int \<Rightarrow> rat" where
  "pow10 e = (if e \<ge> 0 then 10 ^ nat e else 1 / 10 ^ nat (- e))"

definition exponentPart :: "string \<Rightarrow> int \<times> string" where
  "exponentPart r =
     (if r \<noteq> [] \<and> (hd r = CHR ''e'' \<or> hd r = CHR ''E'') then
        (let s = tl r;
             neg = (s \<noteq> [] \<and> hd s = CHR ''-'');
             u = (if s \<noteq> [] \<and> (hd s = CHR ''-'' \<or> hd s = CHR ''+'') then tl s else s);
             ds = takeWhile isDigit u
         in if ds = [] then (0, r)
            else (if neg then - int (decValue ds) else int (decValue ds), dropWhile isDigit u))
      else (0, r))"

definition parseDecimal :: "string \<Rightarrow> (rat \<times> string) option" where
  "parseDecimal s =
     (let neg = (s \<noteq> [] \<and> hd s = CHR ''-'');
          u = (if s \<noteq> [] \<and> (hd s = CHR ''-'' \<or> hd s = CHR ''+'') then tl s else s);
          ip = takeWhile isDigit u;
          r1 = dropWhile isDigit u;
          hasDot = (r1 \<noteq> [] \<and> hd r1 = CHR ''.'');
          fp = (if hasDot then takeWhile isDigit (tl r1) else []);
          r2 = (if hasDot then dropWhile isDigit (tl r1) else r1)
      in if ip = [] \<and> fp = [] then None
         else
           (let mant = of_nat (decValue ip) + of_nat (decValue fp) / 10 ^ length fp;
                ex = exponentPart r2;
                v = mant * pow10 (fst ex)
            in Some (if neg then - v else v, snd ex)))"

text \<open>\<^verbatim>\<open>parseFloat(x)\<close>: leading white space is skipped and the longest decimal literal
  at the start is the value; a missing cell reads as \<^verbatim>\<open>"undefined"\<close> and gives \<open>NaN\<close>.\<close>

definition parseFloat :: "string option \<Rightarrow> jsnum" where
  "parseFloat x =
     (case x of
        None \<Rightarrow> NaN
      | Some s \<Rightarrow> (case parseDecimal (trimStart s) of None \<Rightarrow> NaN | Some (v, _) \<Rightarrow> Num v))"

text \<open>\<^verbatim>\<open>Number(s)\<close> on a string: the whole trimmed string has to be a decimal literal,
  and the empty string is \<open>0\<close>. (The prefixed binary, octal and hexadecimal forms are
  not covered; the only strings converted here are results of \<^verbatim>\<open>toFixed\<close>.)\<close>

definition stringToNumber :: "string \<Rightarrow> jsnum" where
  "stringToNumber s =
     (let t = trim s in
      if t = [] then Num 0
      else (case parseDecimal t of Some (v, []) \<Rightarrow> Num v | _ \<Rightarrow> NaN))"

section \<open>The expected-score function\<close>

text \<open>
  \<^verbatim>\<open>getExpectedScore(playerMark, oppMark)\<close> reads the global \<^verbatim>\<open>fullMark\<close>, which is a
  parameter here. It builds the band table from the sign of \<open>diff\<close>, returns
  \<^verbatim>\<open>fullMark * val\<close> for the first band that holds \<open>absDiff\<close>, and otherwise
  \<^verbatim>\<open>diff >= 0 ? Number(fullMark).toFixed(1) : 0\<close>: a string in one case and a number
  in the other.
\<close>

datatype jsval = JNum jsnum | JStr string

type_synonym band = "int \<times> int \<times> rat"

definition breakpoints :: "jsnum \<Rightarrow> band list" where
  "breakpoints diff =
     (let up = jsGe diff (Num 0) in
       [(0, 3, 0.5),
        (4, 10, if up then 0.51 else 0.49),
        (11, 17, if up then 0.52 else 0.48),
        (18, 25, if up then 0.53 else 0.47),
        (26, 32, if up then 0.54 else 0.46),
        (33, 39, if up then 0.55 else 0.45),
        (40, 46, if up then 0.56 else 0.44),
        (47, 53, if up then 0.57 else 0.43),
        (54, 61, if up then 0.58 else 0.42),
        (62, 68, if up then 0.59 else 0.41),
        (69, 76, if up then 0.6 else 0.4),
        (77, 83, if up then 0.61 else 0.39),
        (84, 91, if up then 0.62 else 0.38),
        (92, 98, if up then 0.63 else 0.37),
        (99, 106, if up then 0.64 else 0.36),
        (107, 113, if up then 0.65 else 0.35),
        (114, 121, if up then 0.66 else 0.34),
        (122, 129, if up then 0.67 else 0.33),
        (130, 137, if up then 0.68 else 0.32),
        (138, 145, if up then 0.69 else 0.31),
        (146, 153, if up then 0.70 else 0.30),
        (154, 162, if up then 0.71 else 0.29),
        (163, 170, if up then 0.72 else 0.28),
        (171, 179, if up then 0.73 else 0.27),
        (180, 188, if up then 0.74 else 0.26),
        (189, 197, if up then 0.75 else 0.25),
        (198, 206, if up then 0.76 else 0.24),
        (207, 215, if up then 0.77 else 0.23),
        (216, 225, if up then 0.78 else 0.22),
        (226, 235, if up then 0.79 else 0.21),
        (236, 245, if up then 0.80 else 0.20),
        (246, 256, if up then 0.81 else 0.19),
        (257, 267, if up then 0.82 else 0.18),
        (268, 278, if up then 0.83 else 0.17),
        (279, 290, if up then 0.84 else 0.16),
        (291, 302, if up then 0.85 else 0.15),
        (303, 315, if up then 0.86 else 0.14),
        (316, 328, if up then 0.87 else 0.13),
        (329, 344, if up then 0.88 else 0.12),
        (345, 357, if up then 0.89 else 0.11),
        (358, 374, if up then 0.90 else 0.10),
        (375, 391, if up then 0.91 else 0.09),
        (392, 411, if up then 0.92 else 0.08),
        (412, 432, if up then 0.93 else 0.07),
        (433, 456, if up then 0.94 else 0.06),
        (457, 484, if up then 0.95 else 0.05),
        (485, 517, if up then 0.96 else 0.04),
        (518, 559, if up then 0.97 else 0.03),
        (560, 619, if up then 0.98 else 0.02),
        (620, 734, if up then 0.99 else 0.01)])"

fun bandLoop :: "jsnum \<Rightarrow> jsnum \<Rightarrow> band list \<Rightarrow> jsnum option" where
  "bandLoop fullMark absDiff [] = None"
| "bandLoop fullMark absDiff ((mn, mx, val) # bs) =
     (if jsGe absDiff (Num (of_int mn)) \<and> jsLe absDiff (Num (of_int mx))
      then Some (jsMul fullMark (Num val))
      else bandLoop fullMark absDiff bs)"

definition getExpectedScore :: "jsnum \<Rightarrow> jsnum \<Rightarrow> jsnum \<Rightarrow> jsval" where
  "getExpectedScore fullMark playerMark oppMark =
     (let diff = jsSub playerMark oppMark;
          absDiff = jsAbs diff
      in case bandLoop fullMark absDiff (breakpoints diff) of
           Some r \<Rightarrow> JNum r
         | None \<Rightarrow> if jsGe diff (Num 0) then JStr (toFixed1 fullMark) else JNum (Num 0))"

text \<open>\<^verbatim>\<open>Number(v)\<close> on what \<open>getExpectedScore\<close> returns.\<close>

definition toNumber :: "jsval \<Rightarrow> jsnum" where
  "toNumber v = (case v of JNum x \<Rightarrow> x | JStr s \<Rightarrow> stringToNumber s)"

text \<open>The parts of a band, and the band test \<^verbatim>\<open>absDiff >= min && absDiff <= max\<close> on an
  integer difference.\<close>

definition bandMin :: "band \<Rightarrow> int" where
  "bandMin b = fst b"

definition bandMax :: "band \<Rightarrow> int" where
  "bandMax b = fst (snd b)"

definition bandVal :: "band \<Rightarrow> rat" where
  "bandVal b = snd (snd b)"

definition inBand :: "int \<Rightarrow> band \<Rightarrow> bool" where
  "inBand d b \<longleftrightarrow> bandMin b \<le> d \<and> d \<le> bandMax b"

section \<open>The rating engine\<close>

text \<open>
  A player is the list of the cells of one input line: name, rating, K-factor, the
  round tokens and the total score. \<^verbatim>\<open>a[i]\<close> on an array is \<^verbatim>\<open>undefined\<close> outside the
  array; \<^verbatim>\<open>a.slice(start, end)\<close> clips both ends to the array and counts a negative
  end from the length.
\<close>

type_synonym row = "string list"

definition jsIndex :: "'a list \<Rightarrow> int \<Rightarrow> 'a option" where
  "jsIndex xs i = (if 0 \<le> i \<and> i < int (length xs) then Some (xs ! nat i) else None)"

definition jsSlice :: "'a list \<Rightarrow> int \<Rightarrow> int \<Rightarrow> 'a list" where
  "jsSlice xs start end =
     (let len = int (length xs);
          k = (if start < 0 then max (len + start) 0 else min start len);
          final = (if end < 0 then max (len + end) 0 else min end len)
      in take (nat (final - k)) (drop (nat k) xs))"

text \<open>
  The body of the loop over the rounds, on the pair \<open>(total, empty)\<close>:
  \<^verbatim>\<open>
  const { opponentId } = parseOpponentToken(player[3 + i]);
  const opponentIndex = opponentId ? opponentId - 1 : -1;
  if (opponentIndex >= 0 && players[opponentIndex]) {
    total += parseInt(players[opponentIndex][1], 10);
  } else {
    empty++;
  }
  \<close>
\<close>

definition opponentIndex :: "int option \<Rightarrow> int" where
  "opponentIndex oid = (case oid of None \<Rightarrow> - 1 | Some n \<Rightarrow> if n \<noteq> 0 then n - 1 else - 1)"

definition roundStep :: "row list \<Rightarrow> row \<Rightarrow> int \<Rightarrow> jsnum \<times> int \<Rightarrow> jsnum \<times> int" where
  "roundStep players player i acc =
     (let oi = opponentIndex (opponentId (parseOpponentToken (jsIndex player (3 + i))))
      in case (if oi \<ge> 0 then jsIndex players oi else None) of
           Some opp \<Rightarrow> (jsAdd (fst acc) (ofInt (parseIntCell (jsIndex opp 1))), snd acc)
         | None \<Rightarrow> (fst acc, snd acc + 1))"

text \<open>\<^verbatim>\<open>for (let i = 0; i < roundCount; i++) { ... }\<close>, from a given \<open>i\<close> on.\<close>

function roundLoop :: "row list \<Rightarrow> row \<Rightarrow> int \<Rightarrow> int \<Rightarrow> jsnum \<times> int \<Rightarrow> jsnum \<times> int" where
  "roundLoop players player roundCount i acc =
     (if i < roundCount
      then roundLoop players player roundCount (i + 1) (roundStep players player i acc)
      else acc)"
  by pat_completeness auto
termination
  by (relation "measure (\<lambda>(players, player, roundCount, i, acc). nat (roundCount - i))") auto

declare roundLoop.simps [simp del]

text \<open>
  One row of \<^verbatim>\<open>updatedPlayers\<close>. The source row is the array
  \<^verbatim>\<open>[index + 1, name, rank, k, ...player.slice(3, 3 + roundCount), score, avgOpponent,
  expected, change.toFixed(1), finalRank]\<close>; \<open>expected\<close> and the change are kept as the
  texts that \<^verbatim>\<open>toFixed(1)\<close> gives. The globals \<^verbatim>\<open>roundCount\<close> and \<^verbatim>\<open>fullMark\<close> are
  parameters: \<open>roundCount\<close> the integer read by \<^verbatim>\<open>parseInt\<close>, \<open>fullMark\<close> a number.
\<close>

record computedRow =
  seq :: int
  name :: "string option"
  rating :: jsnum
  kFactor :: jsnum
  roundTokens :: "string list"
  totalScore :: jsnum
  avgOpponentRating :: jsnum
  expectedScore :: string
  ratingChange :: string
  finalRating :: jsnum

definition calculateRow :: "int \<Rightarrow> jsnum \<Rightarrow> row list \<Rightarrow> row \<Rightarrow> nat \<Rightarrow> computedRow" where
  "calculateRow roundCount fullMark players player index =
     (let rank = ofInt (parseIntCell (jsIndex player 1));
          k = ofInt (parseIntCell (jsIndex player 2));
          score = parseFloat (jsIndex player (3 + roundCount));
          acc = roundLoop players player roundCount 0 (Num 0, 0);
          total = fst acc;
          empty = snd acc;
          divisor = roundCount - empty;
          avgOpponent =
            (if divisor > 0 then jsCeil (jsDiv total (Num (of_int divisor))) else Num 0);
          expected = toFixed1 (toNumber (getExpectedScore fullMark rank avgOpponent));
          change = jsMul (jsSub score (parseFloat (Some expected))) k;
          finalRank = jsRound (jsAdd rank change)
      in \<lparr>seq = int index + 1,
          name = jsIndex player 0,
          rating = rank,
          kFactor = k,
          roundTokens = jsSlice player 3 (3 + roundCount),
          totalScore = score,
          avgOpponentRating = avgOpponent,
          expectedScore = expected,
          ratingChange = toFixed1 change,
          finalRating = finalRank\<rparr>)"

text \<open>\<^verbatim>\<open>players.map((player, index) => ...)\<close>: the rows of \<^verbatim>\<open>calculateGroup\<close>, in
  the order of the players. (The sheet layout built from these rows is not part of
  the embedding.)\<close>

definition calculateGroup :: "int \<Rightarrow> jsnum \<Rightarrow> row list \<Rightarrow> computedRow list" where
  "calculateGroup roundCount fullMark players =
     map (\<lambda>(index, player). calculateRow roundCount fullMark players player index)
       (enumerate 0 players)"

section \<open>Sheet names\<close>

text \<open>
  \<^verbatim>\<open>
  function sanitizeSheetName(name) {
    const cleaned = String(name)
      .replace(/\.[^/.]+$/, "")
      .replace(/[:\\/?*\[\]]/g, "_")
      .trim();
    return (cleaned || "Group").slice(0, 31);
  }
  \<close>
  The first pattern matches a dot followed, up to the end of the string, by one or more
  characters that are neither a slash nor a dot. Such a match can only start at the last
  dot of the string, so the extension is removed when the text after the last dot is
  not empty and has no slash.
\<close>

definition removeExtension :: "string \<Rightarrow> string" where
  "removeExtension s =
     (let ext = rev (takeWhile (\<lambda>c. c \<noteq> CHR ''.'') (rev s))
      in if CHR ''.'' \<in> set s \<and> ext \<noteq> [] \<and> CHR ''/'' \<notin> set ext
         then take (length s - length ext - 1) s
         else s)"

definition forbidden :: "char \<Rightarrow> bool" where
  "forbidden c \<longleftrightarrow>
     c \<in> {CHR '':'', CHR 0x5C, CHR ''/'', CHR ''?'', CHR ''*'', CHR ''['', CHR '']''}"

definition sanitizeSheetName :: "string \<Rightarrow> string" where
  "sanitizeSheetName fileName =
     (let cleaned =
            trim (map (\<lambda>c. if forbidden c then CHR ''_'' else c) (removeExtension fileName))
      in take 31 (if cleaned = [] then ''Group'' else cleaned))"

text \<open>
  \<^verbatim>\<open>
  function makeUniqueSheetName(baseName, existing) {
    let name = baseName.slice(0, 31);
    if (!existing.has(name)) { existing.add(name); return name; }
    let i = 2;
    while (true) {
      const suffix = `_${i}`;
      const trimmedBase = baseName.slice(0, Math.max(0, 31 - suffix.length));
      const candidate = `${trimmedBase}${suffix}`;
      if (!existing.has(candidate)) { existing.add(candidate); return candidate; }
      i++;
    }
  }
  \<close>
  The set \<open>existing\<close> is a finite set that the function updates: the embedding returns
  the name together with the new set. The counter \<open>i\<close> is a natural number, written in
  decimal digits (as the source does below \<open>10^21\<close>; its counter is exact below \<open>2^53\<close>).
\<close>

definition candidate :: "string \<Rightarrow> nat \<Rightarrow> string" where
  "candidate baseName i =
     (let suffix = CHR ''_'' # showNat i;
          trimmedBase = take (nat (max 0 (31 - int (length suffix)))) baseName
      in trimmedBase @ suffix)"


text \<open>
  The loop \<^verbatim>\<open>while (true)\<close> ends because the candidates for different \<open>i\<close> are
  different strings and \<open>existing\<close> is finite. The facts below give that: the digits of
  \<open>i\<close> determine \<open>i\<close>, and a candidate ends with an underscore followed by the digits.
\<close>

lemma showNat_digits: "\<forall>c \<in> set (showNat n). isDigit c"
proof (induction n rule: showNat.induct)
  case (1 n)
  have d: "isDigit (char_of (48 + k))" if "k < 10" for k :: nat
  proof -
    have "(48 + k) mod 256 = 48 + k" using that by simp
    then show ?thesis using that by (simp add: isDigit_def)
  qed
  show ?case
  proof (cases "n < 10")
    case True
    then show ?thesis using d [of n] by (simp add: showNat.simps [of n])
  next
    case False
    then show ?thesis using 1 d [of "n mod 10"] by (simp add: showNat.simps [of n])
  qed
qed

lemma decValue_snoc: "decValue (xs @ [c]) = 10 * decValue xs + digitVal c"
  by (simp add: decValue_def)

lemma digitVal_char_of: "k < 10 \<Longrightarrow> digitVal (char_of (48 + k)) = k"
proof -
  assume "k < 10"
  then have "(48 + k) mod 256 = 48 + k" by simp
  then show ?thesis by (simp add: digitVal_def)
qed

lemma decValue_showNat: "decValue (showNat n) = n"
proof (induction n rule: showNat.induct)
  case (1 n)
  show ?case
  proof (cases "n < 10")
    case True
    then show ?thesis
      using decValue_snoc [of "[]" "char_of (48 + n)"]
      by (simp add: showNat.simps [of n] digitVal_char_of decValue_def)
  next
    case False
    then have "decValue (showNat (n div 10)) = n div 10" using 1 by simp
    then show ?thesis
      using False by (simp add: showNat.simps [of n] decValue_snoc digitVal_char_of)
  qed
qed

lemma showNat_inj: "showNat m = showNat n \<Longrightarrow> m = n"
  by (metis decValue_showNat)

lemma showNat_length: "0 < k \<Longrightarrow> n < 10 ^ k \<Longrightarrow> length (showNat n) \<le> k"
proof (induction n arbitrary: k rule: showNat.induct)
  case (1 n)
  show ?case
  proof (cases "n < 10")
    case True
    then show ?thesis using "1.prems" by (simp add: showNat.simps [of n])
  next
    case False
    then obtain k' where k: "k = Suc k'" using "1.prems" by (cases k) auto
    have "k' \<noteq> 0" using False "1.prems" k by (cases k') auto
    moreover have "n div 10 < 10 ^ k'" using "1.prems" k by (simp add: less_mult_imp_div_less mult.commute)
    ultimately have "length (showNat (n div 10)) \<le> k'" using "1.IH" [of k'] False by simp
    then show ?thesis using False k by (simp add: showNat.simps [of n])
  qed
qed

lemma last_sep_unique:
  assumes "xs @ c # ys = xs' @ c # ys'" and "c \<notin> set ys" and "c \<notin> set ys'"
  shows "ys = ys'"
proof -
  have "takeWhile (\<lambda>x. x \<noteq> c) (rev (xs @ c # ys)) = rev ys"
    using assms(2) by (auto simp: takeWhile_tail)
  moreover have "takeWhile (\<lambda>x. x \<noteq> c) (rev (xs' @ c # ys')) = rev ys'"
    using assms(3) by (auto simp: takeWhile_tail)
  ultimately have "rev ys = rev ys'" using assms(1) by simp
  then show ?thesis by simp
qed

lemma underscore_not_digit: "\<not> isDigit (CHR ''_'')"
  by (simp add: isDigit_def)

lemma candidate_inj: "candidate b i = candidate b j \<Longrightarrow> i = j"
proof -
  assume eq: "candidate b i = candidate b j"
  have ni: "CHR ''_'' \<notin> set (showNat i)" using showNat_digits [of i] underscore_not_digit by blast
  have nj: "CHR ''_'' \<notin> set (showNat j)" using showNat_digits [of j] underscore_not_digit by blast
  have "showNat i = showNat j"
    using last_sep_unique [OF _ ni nj] eq by (simp add: candidate_def Let_def)
  then show ?thesis by (rule showNat_inj)
qed


function suffixLoop :: "string \<Rightarrow> string fset \<Rightarrow> nat \<Rightarrow> string \<times> string fset" where
  "suffixLoop baseName existing i =
     (if candidate baseName i |\<notin>| existing
      then (candidate baseName i, finsert (candidate baseName i) existing)
      else suffixLoop baseName existing (i + 1))"
  by pat_completeness auto
termination
proof (relation "measure (\<lambda>(baseName, existing, i).
          card {s \<in> fset existing. \<exists>j \<ge> i. s = candidate baseName j})")
  show "wf (measure (\<lambda>(baseName, existing, i).
          card {s \<in> fset existing. \<exists>j \<ge> i. s = candidate baseName j}))"
    by simp
next
  fix baseName :: string and existing :: "string fset" and i :: nat
  assume "\<not> candidate baseName i |\<notin>| existing"
  then have mem: "candidate baseName i \<in> fset existing" by simp
  let ?A = "{s \<in> fset existing. \<exists>j \<ge> i + 1. s = candidate baseName j}"
  let ?B = "{s \<in> fset existing. \<exists>j \<ge> i. s = candidate baseName j}"
  have "candidate baseName i \<notin> ?A"
  proof
    assume "candidate baseName i \<in> ?A"
    then obtain j where "j \<ge> i + 1" "candidate baseName i = candidate baseName j" by blast
    then show False using candidate_inj [of baseName i j] by simp
  qed
  moreover have "candidate baseName i \<in> ?B" using mem by blast
  moreover have "?A \<subseteq> ?B"
  proof
    fix s assume "s \<in> ?A"
    then obtain j where "s \<in> fset existing" "j \<ge> i + 1" "s = candidate baseName j" by blast
    then have "s \<in> fset existing \<and> j \<ge> i \<and> s = candidate baseName j" by simp
    then show "s \<in> ?B" by blast
  qed
  ultimately have "?A \<subset> ?B" by blast
  moreover have "finite ?B" by simp
  ultimately have "card ?A < card ?B" by (rule psubset_card_mono [rotated])
  then show "((baseName, existing, i + 1), (baseName, existing, i))
      \<in> measure (\<lambda>(baseName, existing, i).
          card {s \<in> fset existing. \<exists>j \<ge> i. s = candidate baseName j})"
    by simp
qed

declare suffixLoop.simps [simp del]

definition makeUniqueSheetName :: "string \<Rightarrow> string fset \<Rightarrow> string \<times> string fset" where
  "makeUniqueSheetName baseName existing =
     (let nm = take 31 baseName
      in if nm |\<notin>| existing then (nm, finsert nm existing)
         else suffixLoop baseName existing 2)"



section \<open>Auxiliary notions for the statements\<close>

text \<open>A list of bands is a chain from \<open>lo\<close> to \<open>hi\<close> when the first band starts at
  \<open>lo\<close>, every band starts right after the one before, and the last one ends at \<open>hi\<close>.\<close>

fun chain :: "int \<Rightarrow> band list \<Rightarrow> int \<Rightarrow> bool" where
  "chain lo [] hi \<longleftrightarrow> lo = hi + 1"
| "chain lo (b # bs) hi \<longleftrightarrow> bandMin b = lo \<and> bandMin b \<le> bandMax b \<and> chain (bandMax b + 1) bs hi"


text \<open>The opponent row that round \<open>i\<close> of a player resolves to, if any: the row at
  \<open>opponentIndex\<close> when that index is at least 0 and inside \<open>players\<close>.\<close>

definition resolveRound :: "row list \<Rightarrow> row \<Rightarrow> int \<Rightarrow> row option" where
  "resolveRound players player i =
     (let oi = opponentIndex (opponentId (parseOpponentToken (jsIndex player (3 + i))))
      in if oi \<ge> 0 then jsIndex players oi else None)"

text \<open>An empty round in the words of the specification: \<open>opponentId\<close> is null or 0, or
  \<open>opponentId - 1\<close> is outside \<open>[0, players.length)\<close>.\<close>

definition emptyRound :: "row list \<Rightarrow> row \<Rightarrow> int \<Rightarrow> bool" where
  "emptyRound players player i =
     (case opponentId (parseOpponentToken (jsIndex player (3 + i))) of
        None \<Rightarrow> True
      | Some n \<Rightarrow> n = 0 \<or> n - 1 < 0 \<or> int (length players) \<le> n - 1)"

text \<open>\<open>(totalScore - expectedScore) * kFactor\<close> from the fields of a row, the expected
  score being the one-decimal text read back as a number.\<close>

definition rawChange :: "computedRow \<Rightarrow> jsnum" where
  "rawChange r = jsMul (jsSub (totalScore r) (parseFloat (Some (expectedScore r)))) (kFactor r)"

text \<open>Two small groups used as concrete inputs: five players rated 1500 who all
  meet each other over four rounds, and a player rated 1600 with three opponents.\<close>

definition scenarioA :: "row list" where
  "scenarioA =
    [[''A'', ''1500'', ''20'', ''W2'', ''D3'', ''D4'', ''D5'', ''2.5''],
     [''B'', ''1500'', ''20'', ''L1'', ''D3'', ''D4'', ''D5'', ''1.5''],
     [''C'', ''1500'', ''20'', ''D1'', ''D2'', ''D4'', ''D5'', ''2''],
     [''D'', ''1500'', ''20'', ''D1'', ''D2'', ''D3'', ''D5'', ''2''],
     [''E'', ''1500'', ''20'', ''D1'', ''D2'', ''D3'', ''D4'', ''2'']]"





section \<open>Facts about the string primitives\<close>













lemma parseInt10_None_iff: "parseInt10 s = None \<longleftrightarrow> \<not> hasLeadingInt s"
  by (auto simp: parseInt10_def hasLeadingInt_def Let_def takeWhile_eq_Nil_iff)

section \<open>The opponent token parser: claims\<close>

lemma char_eq_code: "c = d \<longleftrightarrow> (of_char c :: nat) = of_char d"
  by simp

lemma of_char_toUpperCase:
  "(of_char (toUpperCase c) :: nat) =
     (if 97 \<le> (of_char c :: nat) \<and> (of_char c :: nat) \<le> 122 then of_char c - 32 else of_char c)"
proof (cases "97 \<le> (of_char c :: nat) \<and> (of_char c :: nat) \<le> 122")
  case True
  then have "(of_char c :: nat) - 32 < 256" by arith
  then show ?thesis using True by (simp add: toUpperCase_def)
next
  case False
  then show ?thesis by (auto simp: toUpperCase_def)
qed

lemma isMarker_iff: "isMarker c \<longleftrightarrow> c \<in> set ''WDLwdl''"
proof -
  have "isMarker c \<longleftrightarrow> (of_char (toUpperCase c) :: nat) \<in> {87, 68, 76}"
    unfolding isMarker_def
    by (simp add: char_eq_code [of "toUpperCase c"] del: of_char_eq_iff)
  also have "\<dots> \<longleftrightarrow> (of_char c :: nat) \<in> {87, 68, 76, 119, 100, 108}"
    unfolding of_char_toUpperCase by auto
  also have "\<dots> \<longleftrightarrow> c \<in> set ''WDLwdl''"
    by (simp add: char_eq_code [of c] del: of_char_eq_iff)
  finally show ?thesis .
qed


text \<open>
  Claim C7. The parser is a total function with no failing branch. A missing token
  and a token that is empty after trimming give \<open>opponentId = None\<close> and the empty
  display. When the trimmed token starts with one of the markers \<open>W\<close>, \<open>D\<close>, \<open>L\<close>
  in either case, the integer is parsed from what follows the marker and the
  display keeps the trimmed token with its marker as typed. When what is parsed has
  no leading integer the result is \<open>opponentId = None\<close>, with the display kept.
\<close>

theorem parseOpponentToken_permissive:
  "parseOpponentToken None = \<lparr>opponentId = None, display = ''''\<rparr>
   \<and> (trim t0 = [] \<longrightarrow> parseOpponentToken (Some t0) = \<lparr>opponentId = None, display = ''''\<rparr>)
   \<and> (m \<in> set ''WDLwdl'' \<and> trim t1 = m # rest \<longrightarrow>
        parseOpponentToken (Some t1) = \<lparr>opponentId = parseInt10 rest, display = m # rest\<rparr>)
   \<and> (\<not> hasLeadingInt (maybeNumber (trim t2)) \<longrightarrow>
        parseOpponentToken (Some t2) = \<lparr>opponentId = None, display = trim t2\<rparr>)"
  by (auto simp: parseOpponentToken_def Let_def maybeNumber_def isMarker_iff parseInt10_None_iff)

theorem parseOpponentToken_permissive_witness:
  "parseOpponentToken (Some ''   '') = \<lparr>opponentId = None, display = ''''\<rparr>
   \<and> parseOpponentToken (Some ''w12'') = \<lparr>opponentId = Some 12, display = ''w12''\<rparr>
   \<and> parseOpponentToken (Some ''bye'') = \<lparr>opponentId = None, display = ''bye''\<rparr>"
proof -
  have a: "trim ''   '' = []" by code_simp
  have b: "CHR ''w'' \<in> set ''WDLwdl'' \<and> trim ''w12'' = CHR ''w'' # ''12''" by code_simp
  have c: "\<not> hasLeadingInt (maybeNumber (trim ''bye''))" by code_simp
  have d: "parseInt10 ''12'' = Some 12" by code_simp
  have e: "trim ''bye'' = ''bye''" by code_simp
  show ?thesis
    using parseOpponentToken_permissive [of "''   ''" "CHR ''w''" "''w12''" "''12''" "''bye''"] a b c d e
    by simp
qed



section \<open>The band table: claims\<close>

lemma chain_le: "chain lo bs hi \<Longrightarrow> lo \<le> hi + 1"
proof (induction bs arbitrary: lo)
  case Nil
  then show ?case by simp
next
  case (Cons b bs)
  have "bandMax b + 1 \<le> hi + 1" using Cons.IH [of "bandMax b + 1"] Cons.prems by simp
  then show ?case using Cons.prems by simp
qed

lemma chain_bounds:
  "chain lo bs hi \<Longrightarrow> i < length bs \<Longrightarrow>
     lo \<le> bandMin (bs ! i) \<and> bandMin (bs ! i) \<le> bandMax (bs ! i) \<and> bandMax (bs ! i) \<le> hi"
proof (induction bs arbitrary: lo i)
  case Nil
  then show ?case by simp
next
  case (Cons b bs)
  show ?case
  proof (cases i)
    case 0
    then show ?thesis using Cons.prems chain_le [of "bandMax b + 1" bs hi] by simp
  next
    case (Suc k)
    then show ?thesis using Cons.prems Cons.IH [of "bandMax b + 1" k] by simp
  qed
qed

lemma chain_next:
  "chain lo bs hi \<Longrightarrow> Suc i < length bs \<Longrightarrow> bandMax (bs ! i) + 1 = bandMin (bs ! Suc i)"
proof (induction bs arbitrary: lo i)
  case Nil
  then show ?case by simp
next
  case (Cons b bs)
  show ?case
  proof (cases i)
    case 0
    then show ?thesis using Cons.prems by (cases bs) auto
  next
    case (Suc k)
    then show ?thesis using Cons.prems Cons.IH [of "bandMax b + 1" k] by simp
  qed
qed

lemma chain_find:
  "chain lo bs hi \<Longrightarrow> lo \<le> d \<Longrightarrow> d \<le> hi \<Longrightarrow> \<exists>i < length bs. inBand d (bs ! i)"
proof (induction bs arbitrary: lo)
  case Nil
  then show ?case by simp
next
  case (Cons b bs)
  show ?case
  proof (cases "d \<le> bandMax b")
    case True
    then have "inBand d ((b # bs) ! 0)" using Cons.prems by (simp add: inBand_def)
    then show ?thesis by blast
  next
    case False
    then obtain k where "k < length bs" "inBand d (bs ! k)"
      using Cons.prems Cons.IH [of "bandMax b + 1"] by auto
    then have "Suc k < length (b # bs) \<and> inBand d ((b # bs) ! Suc k)" by simp
    then show ?thesis by blast
  qed
qed

lemma chain_disjoint:
  "chain lo bs hi \<Longrightarrow> i < length bs \<Longrightarrow> j < length bs \<Longrightarrow>
     inBand d (bs ! i) \<Longrightarrow> inBand d (bs ! j) \<Longrightarrow> i = j"
proof (induction bs arbitrary: lo i j)
  case Nil
  then show ?case by simp
next
  case (Cons b bs)
  have later: "bandMax b < d" if "k < length bs" "inBand d (bs ! k)" for k
    using chain_bounds [of "bandMax b + 1" bs hi k] Cons.prems(1) that
    by (simp add: inBand_def)
  show ?case
  proof (cases i)
    case i0: 0
    show ?thesis
    proof (cases j)
      case 0
      then show ?thesis using i0 by simp
    next
      case (Suc l)
      then have "bandMax b < d" using later [of l] Cons.prems by simp
      then show ?thesis using Cons.prems i0 by (simp add: inBand_def)
    qed
  next
    case iS: (Suc k)
    show ?thesis
    proof (cases j)
      case 0
      have "bandMax b < d" using later [of k] Cons.prems iS by simp
      then show ?thesis using Cons.prems 0 by (simp add: inBand_def)
    next
      case (Suc l)
      then show ?thesis using Cons.prems iS Cons.IH [of "bandMax b + 1" k l] by simp
    qed
  qed
qed

lemma breakpoints_chain: "chain 0 (breakpoints diff) 734"
  by (simp add: breakpoints_def Let_def bandMin_def bandMax_def)

lemma breakpoints_length: "length (breakpoints diff) = 50"
  by (simp add: breakpoints_def Let_def)

text \<open>Claim C2 as stated fails on the count: the table has 50 bands, so not 49.\<close>

theorem breakpoints_count_counterexample:
  "length (breakpoints (Num 0)) \<noteq> 49"
  by (simp add: breakpoints_def Let_def)

text \<open>
  Claim C2, as amended. For either sign of \<open>diff\<close> the table has 50 bands (not 49).
  The first band starts at 0 and the last ends at 734, no band is empty, each band
  starts right after the one before (so the table is ordered and without overlap or
  gap), two bands that hold the same integer are the same band, the integers held by
  some band are exactly those from 0 to 734, and each of them lies in exactly one
  band.
\<close>

theorem breakpoints_partition:
  "length (breakpoints diff) = 50
   \<and> bandMin (breakpoints diff ! 0) = 0
   \<and> bandMax (breakpoints diff ! 49) = 734
   \<and> (\<forall>i < 50. bandMin (breakpoints diff ! i) \<le> bandMax (breakpoints diff ! i))
   \<and> (\<forall>i. Suc i < 50 \<longrightarrow>
         bandMax (breakpoints diff ! i) + 1 = bandMin (breakpoints diff ! Suc i))
   \<and> (\<forall>i < 50. \<forall>j < 50. \<forall>d.
         inBand d (breakpoints diff ! i) \<and> inBand d (breakpoints diff ! j) \<longrightarrow> i = j)
   \<and> (\<forall>d. (\<exists>i < 50. inBand d (breakpoints diff ! i)) \<longleftrightarrow> 0 \<le> d \<and> d \<le> 734)
   \<and> (\<forall>d. 0 \<le> d \<and> d \<le> 734 \<longrightarrow> (\<exists>!i. i < 50 \<and> inBand d (breakpoints diff ! i)))"
proof -
  let ?bs = "breakpoints diff"
  have len: "length ?bs = 50" by (rule breakpoints_length)
  have ch: "chain 0 ?bs 734" by (rule breakpoints_chain)
  have first: "bandMin (?bs ! 0) = 0"
    by (simp add: breakpoints_def Let_def bandMin_def)
  have last: "bandMax (?bs ! 49) = 734"
    by (simp add: breakpoints_def Let_def bandMax_def)
  have wf: "\<forall>i < 50. bandMin (?bs ! i) \<le> bandMax (?bs ! i)"
    using chain_bounds [OF ch] len by simp
  have nxt: "\<forall>i. Suc i < 50 \<longrightarrow> bandMax (?bs ! i) + 1 = bandMin (?bs ! Suc i)"
    using chain_next [OF ch] len by simp
  have disj: "\<forall>i < 50. \<forall>j < 50. \<forall>d. inBand d (?bs ! i) \<and> inBand d (?bs ! j) \<longrightarrow> i = j"
    using chain_disjoint [OF ch] len by auto
  have span: "(\<exists>i < 50. inBand d (?bs ! i)) \<longleftrightarrow> 0 \<le> d \<and> d \<le> 734" for d
  proof
    assume "\<exists>i < 50. inBand d (?bs ! i)"
    then obtain i where i: "i < 50" "inBand d (?bs ! i)" by blast
    then show "0 \<le> d \<and> d \<le> 734"
      using chain_bounds [OF ch, of i] len by (simp add: inBand_def)
  next
    assume "0 \<le> d \<and> d \<le> 734"
    then show "\<exists>i < 50. inBand d (?bs ! i)"
      using chain_find [OF ch, of d] len by simp
  qed
  have uniq: "\<exists>!i. i < 50 \<and> inBand d (?bs ! i)" if d: "0 \<le> d \<and> d \<le> 734" for d
  proof -
    obtain i where i: "i < 50" "inBand d (?bs ! i)" using span [of d] d by blast
    show ?thesis
    proof (rule ex1I [of _ i])
      show "i < 50 \<and> inBand d (?bs ! i)" using i by simp
    next
      fix j assume "j < 50 \<and> inBand d (?bs ! j)"
      then show "j = i" using disj i by blast
    qed
  qed
  show ?thesis using len first last wf nxt disj span uniq by blast
qed

theorem breakpoints_partition_witness:
  "length (breakpoints (Num 5)) = 50
   \<and> inBand 100 (breakpoints (Num 5) ! 14)
   \<and> (\<exists>!i. i < 50 \<and> inBand 100 (breakpoints (Num 5) ! i))"
proof -
  have a: "inBand 100 (breakpoints (Num 5) ! 14)"
    by (simp add: breakpoints_def Let_def inBand_def bandMin_def bandMax_def)
  have b: "(0::int) \<le> 100 \<and> (100::int) \<le> 734" by simp
  show ?thesis using breakpoints_partition [of "Num 5"] a b by blast
qed

section \<open>The expected-score function: claims\<close>

lemma bandLoop_none:
  "\<forall>b \<in> set bs. of_int (bandMax b) < a \<Longrightarrow> bandLoop fm (Num a) bs = None"
  by (induction bs) (auto simp: bandMax_def)

lemma breakpoints_max: "\<forall>b \<in> set (breakpoints diff). bandMax b \<le> 734"
  by (simp add: breakpoints_def Let_def bandMax_def)

lemma bandLoop_above:
  assumes "734 < a"
  shows "bandLoop fm (Num a) (breakpoints diff) = None"
proof (rule bandLoop_none, rule ballI)
  fix b assume "b \<in> set (breakpoints diff)"
  then have "bandMax b \<le> 734" using breakpoints_max by blast
  then have "(of_int (bandMax b) :: rat) \<le> 734" by (metis of_int_le_iff of_int_numeral)
  then show "of_int (bandMax b) < a" using assms by simp
qed

lemma bandLoop_734:
  "bandLoop fm (Num 734) (breakpoints diff)
     = Some (jsMul fm (Num (if jsGe diff (Num 0) then 0.99 else 0.01)))"
  by (simp add: breakpoints_def Let_def)

text \<open>
  Claim C3. For numeric ratings whose difference is more than 734 in absolute value
  no band matches, and the result is the text of \<open>fullMark\<close> with one decimal when
  \<open>diff \<ge> 0\<close> and the number 0 when \<open>diff < 0\<close>; this is so at 735. At 734 the last
  band still applies and the result is \<open>fullMark\<close> times 0.99, or times 0.01 when
  \<open>diff < 0\<close>.
\<close>

theorem getExpectedScore_saturation:
  "(734 < \<bar>p - q\<bar> \<longrightarrow>
      getExpectedScore fm (Num p) (Num q)
        = (if 0 \<le> p - q then JStr (toFixed1 fm) else JNum (Num 0)))
   \<and> (\<bar>p - q\<bar> = 735 \<longrightarrow>
      getExpectedScore fm (Num p) (Num q)
        = (if 0 \<le> p - q then JStr (toFixed1 fm) else JNum (Num 0)))
   \<and> (\<bar>p - q\<bar> = 734 \<longrightarrow>
      getExpectedScore fm (Num p) (Num q)
        = JNum (jsMul fm (Num (if 0 \<le> p - q then 0.99 else 0.01))))"
proof -
  have sat: "getExpectedScore fm (Num p) (Num q)
        = (if 0 \<le> p - q then JStr (toFixed1 fm) else JNum (Num 0))" if "734 < \<bar>p - q\<bar>"
    using bandLoop_above [OF that] by (simp add: getExpectedScore_def Let_def)
  have edge: "getExpectedScore fm (Num p) (Num q)
        = JNum (jsMul fm (Num (if 0 \<le> p - q then 0.99 else 0.01)))" if "\<bar>p - q\<bar> = 734"
    using that by (simp add: getExpectedScore_def Let_def bandLoop_734)
  show ?thesis using sat edge by simp
qed

theorem getExpectedScore_saturation_witness:
  "getExpectedScore (Num 4) (Num 1500) (Num 700) = JStr ''4.0''
   \<and> getExpectedScore (Num 4) (Num 700) (Num 1500) = JNum (Num 0)
   \<and> getExpectedScore (Num 4) (Num 1500) (Num 765) = JStr ''4.0''
   \<and> getExpectedScore (Num 4) (Num 765) (Num 1500) = JNum (Num 0)
   \<and> getExpectedScore (Num 4) (Num 1500) (Num 766) = JNum (Num 3.96)
   \<and> getExpectedScore (Num 4) (Num 766) (Num 1500) = JNum (Num 0.04)"
proof -
  have f: "toFixed1 (Num 4) = ''4.0''" by code_simp
  show ?thesis
    using getExpectedScore_saturation [of 1500 700 "Num 4"]
      getExpectedScore_saturation [of 700 1500 "Num 4"]
      getExpectedScore_saturation [of 1500 765 "Num 4"]
      getExpectedScore_saturation [of 765 1500 "Num 4"]
      getExpectedScore_saturation [of 1500 766 "Num 4"]
      getExpectedScore_saturation [of 766 1500 "Num 4"] f
    by simp
qed

lemma breakpoints_mirror:
  assumes "diff \<noteq> 0"
  shows "list_all2 (\<lambda>a b. bandVal a + bandVal b = 1)
           (tl (breakpoints (Num diff))) (tl (breakpoints (Num (- diff))))"
proof (cases "0 \<le> diff")
  case True
  then have "\<not> 0 \<le> - diff" using assms by simp
  then show ?thesis using True by (simp add: breakpoints_def Let_def bandVal_def)
next
  case False
  then have "0 \<le> - diff" by simp
  then show ?thesis using False by (simp add: breakpoints_def Let_def bandVal_def)
qed

lemma bandLoop_dead:
  "0 \<le> a \<Longrightarrow> a \<le> 3 \<Longrightarrow> bandLoop fm (Num a) (breakpoints diff) = Some (jsMul fm (Num 0.5))"
  by (simp add: breakpoints_def Let_def)

lemma getExpectedScore_dead_band:
  "\<bar>p - q\<bar> \<le> 3 \<Longrightarrow> getExpectedScore fm (Num p) (Num q) = JNum (jsMul fm (Num 0.5))"
  using bandLoop_dead [of "\<bar>p - q\<bar>" fm "Num (p - q)"]
  by (simp add: getExpectedScore_def Let_def)

text \<open>
  Claim C6. In every band but the first, the fraction chosen for a non-zero \<open>diff\<close>
  and the one chosen for \<open>- diff\<close> add up to 1. The first band is \<open>[0, 3]\<close> with the
  fraction 0.5 whatever the sign, so a difference of at most 3 either way, and equal
  ratings in particular, give \<open>fullMark\<close> times 0.5.
\<close>

theorem breakpoints_symmetry:
  "(diff \<noteq> 0 \<longrightarrow>
      (\<forall>i. 0 < i \<and> i < 50 \<longrightarrow>
         bandVal (breakpoints (Num diff) ! i) + bandVal (breakpoints (Num (- diff)) ! i) = 1))
   \<and> breakpoints x ! 0 = (0, 3, 0.5)
   \<and> (\<bar>p - q\<bar> \<le> 3 \<longrightarrow> getExpectedScore fm (Num p) (Num q) = JNum (jsMul fm (Num 0.5)))
   \<and> getExpectedScore fm (Num r) (Num r) = JNum (jsMul fm (Num 0.5))"
proof -
  have sym: "bandVal (breakpoints (Num diff) ! i) + bandVal (breakpoints (Num (- diff)) ! i) = 1"
    if d: "diff \<noteq> 0" and i: "0 < i \<and> i < 50" for i
  proof -
    let ?u = "breakpoints (Num diff)" and ?v = "breakpoints (Num (- diff))"
    have lu: "length ?u = 50" and lv: "length ?v = 50" by (rule breakpoints_length)+
    have k: "i - 1 < length (tl ?u)" using i lu by auto
    have "bandVal (tl ?u ! (i - 1)) + bandVal (tl ?v ! (i - 1)) = 1"
      using list_all2_nthD [OF breakpoints_mirror [OF d] k] .
    moreover have "tl ?u ! (i - 1) = ?u ! i" using i lu by (auto simp: nth_tl)
    moreover have "tl ?v ! (i - 1) = ?v ! i" using i lv by (auto simp: nth_tl)
    ultimately show ?thesis by simp
  qed
  have dead: "breakpoints x ! 0 = (0, 3, 0.5)"
    by (simp add: breakpoints_def Let_def)
  have near: "getExpectedScore fm (Num p) (Num q) = JNum (jsMul fm (Num 0.5))"
    if "\<bar>p - q\<bar> \<le> 3" for p q
    using that by (rule getExpectedScore_dead_band)
  have eq: "getExpectedScore fm (Num r) (Num r) = JNum (jsMul fm (Num 0.5))"
    using near [of r r] by simp
  show ?thesis using sym dead near eq by blast
qed

theorem breakpoints_symmetry_witness:
  "bandVal (breakpoints (Num 40) ! 6) + bandVal (breakpoints (Num (- 40)) ! 6) = 1
   \<and> getExpectedScore (Num 4) (Num 1502) (Num 1500) = JNum (Num 2)"
proof -
  have a: "(40::rat) \<noteq> 0" by simp
  have b: "(0::nat) < 6 \<and> (6::nat) < 50" by simp
  have c: "\<bar>1502 - 1500 :: rat\<bar> \<le> 3" by simp
  show ?thesis
    using breakpoints_symmetry [of 40 "Num 0" 1502 1500 "Num 4" 0] a b c
    by simp
qed

section \<open>The rating engine: claims\<close>

lemma roundStep_resolve:
  "roundStep players player i acc =
     (case resolveRound players player i of
        Some opp \<Rightarrow> (jsAdd (fst acc) (ofInt (parseIntCell (jsIndex opp 1))), snd acc)
      | None \<Rightarrow> (fst acc, snd acc + 1))"
  by (simp add: roundStep_def resolveRound_def Let_def)

lemma emptyRound_iff: "emptyRound players player i \<longleftrightarrow> resolveRound players player i = None"
  by (auto simp: emptyRound_def resolveRound_def opponentIndex_def jsIndex_def Let_def
      split: option.splits)

lemma roundLoop_upto:
  "roundLoop players player rc i acc
     = foldl (\<lambda>a j. roundStep players player j a) acc [i..rc - 1]"
proof (induction players player rc i acc rule: roundLoop.induct)
  case (1 players player rc i acc)
  show ?case
  proof (cases "i < rc")
    case True
    then have "[i..rc - 1] = i # [i + 1..rc - 1]" by (simp add: upto_rec1)
    then show ?thesis using True 1 by (simp add: roundLoop.simps [of players player rc i])
  next
    case False
    then show ?thesis by (simp add: roundLoop.simps [of players player rc i])
  qed
qed

lemma roundLoop_all_empty:
  "\<forall>j. i \<le> j \<and> j < rc \<longrightarrow> emptyRound players player j \<Longrightarrow>
     roundLoop players player rc i (t, e) = (t, e + max 0 (rc - i))"
proof (induction players player rc i "(t, e)" arbitrary: e rule: roundLoop.induct)
  case (1 players player rc i)
  show ?case
  proof (cases "i < rc")
    case True
    then have "emptyRound players player i" using "1.prems" by simp
    then have st: "roundStep players player i (t, e) = (t, e + 1)"
      by (simp add: roundStep_resolve emptyRound_iff)
    have "roundLoop players player rc (i + 1) (t, e + 1) = (t, e + 1 + max 0 (rc - (i + 1)))"
      using "1.hyps" [OF True st] "1.prems" by simp
    then show ?thesis using True st by (simp add: roundLoop.simps [of players player rc i])
  next
    case False
    then show ?thesis by (simp add: roundLoop.simps [of players player rc i])
  qed
qed

lemma nth_calculateGroup:
  "i < length players \<Longrightarrow>
     calculateGroup rc fm players ! i = calculateRow rc fm players (players ! i) i"
  by (simp add: calculateGroup_def nth_enumerate_eq)

lemma length_calculateGroup: "length (calculateGroup rc fm players) = length players"
  by (simp add: calculateGroup_def)


lemma calculateRow_avg:
  "avgOpponentRating (calculateRow rc fm players player index)
     = (let acc = roundLoop players player rc 0 (Num 0, 0); divisor = rc - snd acc
        in if divisor > 0 then jsCeil (jsDiv (fst acc) (Num (of_int divisor))) else Num 0)"
  by (simp add: calculateRow_def Let_def)

lemma calculateRow_inputs:
  "rating (calculateRow rc fm players player index) = ofInt (parseIntCell (jsIndex player 1))"
  "kFactor (calculateRow rc fm players player index) = ofInt (parseIntCell (jsIndex player 2))"
  "totalScore (calculateRow rc fm players player index) = parseFloat (jsIndex player (3 + rc))"
  "seq (calculateRow rc fm players player index) = int index + 1"
  "name (calculateRow rc fm players player index) = jsIndex player 0"
  "roundTokens (calculateRow rc fm players player index) = jsSlice player 3 (3 + rc)"
  by (simp_all add: calculateRow_def Let_def)

lemma calculateRow_expected:
  "expectedScore (calculateRow rc fm players player index)
     = toFixed1 (toNumber (getExpectedScore fm
         (rating (calculateRow rc fm players player index))
         (avgOpponentRating (calculateRow rc fm players player index))))"
  by (simp add: calculateRow_def Let_def)

lemma calculateRow_change:
  "ratingChange (calculateRow rc fm players player index)
     = toFixed1 (rawChange (calculateRow rc fm players player index))"
  by (simp add: calculateRow_def Let_def rawChange_def)

lemma calculateRow_final:
  "finalRating (calculateRow rc fm players player index)
     = jsRound (jsAdd (rating (calculateRow rc fm players player index))
         (rawChange (calculateRow rc fm players player index)))"
  by (simp add: calculateRow_def Let_def rawChange_def)


















text \<open>
  Claim C5. A round is empty when its token gives no \<open>opponentId\<close>, gives 0, or gives
  an id whose index \<open>opponentId - 1\<close> is outside \<open>players\<close>; the loop body then leaves the
  sum as it is and adds one to \<open>empty\<close>. The loop applies the body to the rounds
  \<open>0, \<dots>, roundCount - 1\<close> in order. When all of these rounds are empty the loop ends
  with the sum 0 and \<open>empty = roundCount\<close>, and whenever the divisor
  \<open>roundCount - empty\<close> is 0 the average opponent rating is 0: the quotient is not
  taken.
\<close>

theorem emptyRounds:
  "(emptyRound players player i \<longrightarrow>
      roundStep players player i (tot, emp) = (tot, emp + 1))
   \<and> roundLoop players player rc 0 acc
       = foldl (\<lambda>a j. roundStep players player j a) acc [0..rc - 1]
   \<and> ((\<forall>j. 0 \<le> j \<and> j < rc \<longrightarrow> emptyRound players player j) \<longrightarrow>
        roundLoop players player rc 0 (Num 0, 0) = (Num 0, max 0 rc)
        \<and> avgOpponentRating (calculateRow rc fm players player index) = Num 0)
   \<and> (rc - snd (roundLoop players player rc 0 (Num 0, 0)) = 0 \<longrightarrow>
        avgOpponentRating (calculateRow rc fm players player index) = Num 0)"
proof -
  have step: "roundStep players player i (tot, emp) = (tot, emp + 1)"
    if "emptyRound players player i"
    using that by (simp add: roundStep_resolve emptyRound_iff)
  have loop: "roundLoop players player rc 0 acc
       = foldl (\<lambda>a j. roundStep players player j a) acc [0..rc - 1]"
    by (rule roundLoop_upto)
  have all: "roundLoop players player rc 0 (Num 0, 0) = (Num 0, max 0 rc)
        \<and> avgOpponentRating (calculateRow rc fm players player index) = Num 0"
    if e: "\<forall>j. 0 \<le> j \<and> j < rc \<longrightarrow> emptyRound players player j"
  proof -
    have l: "roundLoop players player rc 0 (Num 0, 0) = (Num 0, max 0 rc)"
      using roundLoop_all_empty [OF e, of "Num 0" 0] by simp
    then show ?thesis by (simp add: calculateRow_avg Let_def)
  qed
  have zero: "avgOpponentRating (calculateRow rc fm players player index) = Num 0"
    if "rc - snd (roundLoop players player rc 0 (Num 0, 0)) = 0"
    using that by (simp add: calculateRow_avg Let_def)
  show ?thesis using step loop all zero by blast
qed

theorem emptyRounds_witness:
  "roundStep [[''A'', ''1500'', ''20'', ''0'', ''bye'', ''9'', ''0.5'']]
      [''A'', ''1500'', ''20'', ''0'', ''bye'', ''9'', ''0.5''] 0 (Num 0, 0) = (Num 0, 1)
   \<and> roundLoop [[''A'', ''1500'', ''20'', ''0'', ''bye'', ''9'', ''0.5'']]
      [''A'', ''1500'', ''20'', ''0'', ''bye'', ''9'', ''0.5''] 3 0 (Num 0, 0) = (Num 0, 3)
   \<and> avgOpponentRating (calculateRow 3 (Num 3)
        [[''A'', ''1500'', ''20'', ''0'', ''bye'', ''9'', ''0.5'']]
        [''A'', ''1500'', ''20'', ''0'', ''bye'', ''9'', ''0.5''] 0) = Num 0"
proof -
  let ?p = "[''A'', ''1500'', ''20'', ''0'', ''bye'', ''9'', ''0.5'']"
  have e0: "emptyRound [?p] ?p 0" by code_simp
  have e1: "emptyRound [?p] ?p 1" by code_simp
  have e2: "emptyRound [?p] ?p 2" by code_simp
  have e: "\<forall>j. 0 \<le> j \<and> j < 3 \<longrightarrow> emptyRound [?p] ?p j"
  proof (intro allI impI)
    fix j :: int assume "0 \<le> j \<and> j < 3"
    then have "j = 0 \<or> j = 1 \<or> j = 2" by arith
    then show "emptyRound [?p] ?p j" using e0 e1 e2 by blast
  qed
  note T = emptyRounds [of "[?p]" ?p 0 "Num 0" 0 3 "(Num 0, 0)" "Num 3" 0]
  have s: "roundStep [?p] ?p 0 (Num 0, 0) = (Num 0, 0 + 1)" using T e0 by blast
  have l: "roundLoop [?p] ?p 3 0 (Num 0, 0) = (Num 0, max 0 3)
      \<and> avgOpponentRating (calculateRow 3 (Num 3) [?p] ?p 0) = Num 0"
    using T e by blast
  show ?thesis using s l by simp
qed






text \<open>
  Claim C8 (scenario A). With 4 rounds and a full mark of 4, a player rated 1500 with
  K-factor 20 and total score 2.5, whose four round tokens each resolve to an opponent
  rated 1500, gets the average opponent rating 1500, the expected score 2.0, the
  rating change 10.0 and the final rating 1510.
\<close>

theorem scenarioA_result:
  assumes "idx < length players"
    and "parseIntCell (jsIndex (players ! idx) 1) = Some 1500"
    and "parseIntCell (jsIndex (players ! idx) 2) = Some 20"
    and "parseFloat (jsIndex (players ! idx) 7) = Num 2.5"
    and "\<forall>i \<in> {0, 1, 2, 3}. \<exists>opp. resolveRound players (players ! idx) i = Some opp
            \<and> parseIntCell (jsIndex opp 1) = Some 1500"
  shows "avgOpponentRating (calculateGroup 4 (Num 4) players ! idx) = Num 1500
       \<and> expectedScore (calculateGroup 4 (Num 4) players ! idx) = ''2.0''
       \<and> ratingChange (calculateGroup 4 (Num 4) players ! idx) = ''10.0''
       \<and> finalRating (calculateGroup 4 (Num 4) players ! idx) = Num 1510"
proof -
  define p where "p = players ! idx"
  define r where "r = calculateRow 4 (Num 4) players p idx"
  have r: "calculateGroup 4 (Num 4) players ! idx = r"
    using assms(1) by (simp add: r_def p_def nth_calculateGroup)
  have step: "roundStep players p i (t, e) = (jsAdd t (Num 1500), e)"
    if "i \<in> {0, 1, 2, 3}" for i t e
  proof -
    have "\<exists>opp. resolveRound players (players ! idx) i = Some opp
            \<and> parseIntCell (jsIndex opp 1) = Some 1500"
      using assms(5) that by (rule bspec)
    then obtain opp where o: "resolveRound players p i = Some opp"
      "parseIntCell (jsIndex opp 1) = Some 1500"
      unfolding p_def by (elim exE conjE)
    show ?thesis unfolding roundStep_resolve o by (simp add: ofInt_def o)
  qed
  have u: "[0..(4::int) - 1] = [0, 1, 2, 3]" by code_simp
  have s0: "roundStep players p 0 (Num 0, 0) = (Num 1500, 0)"
    using step [of 0 "Num 0" 0] by simp
  have s1: "roundStep players p 1 (Num 1500, 0) = (Num 3000, 0)"
    using step [of 1 "Num 1500" 0] by simp
  have s2: "roundStep players p 2 (Num 3000, 0) = (Num 4500, 0)"
    using step [of 2 "Num 3000" 0] by simp
  have s3: "roundStep players p 3 (Num 4500, 0) = (Num 6000, 0)"
    using step [of 3 "Num 4500" 0] by simp
  have loop: "roundLoop players p 4 0 (Num 0, 0) = (Num 6000, 0)"
    by (simp only: roundLoop_upto u foldl.simps s0 s1 s2 s3)
  have "jsCeil (jsDiv (Num 6000) (Num (of_int 4))) = Num 1500" by code_simp
  then have avg: "avgOpponentRating r = Num 1500"
    unfolding r_def by (simp add: calculateRow_avg loop)
  have rk: "rating r = Num 1500"
    unfolding r_def calculateRow_inputs using assms(2) by (simp add: p_def ofInt_def)
  have kf: "kFactor r = Num 20"
    unfolding r_def calculateRow_inputs using assms(3) by (simp add: p_def ofInt_def)
  have sc: "totalScore r = Num 2.5"
    unfolding r_def calculateRow_inputs using assms(4) by (simp add: p_def)
  have "getExpectedScore (Num 4) (Num 1500) (Num 1500) = JNum (Num 2)"
    using getExpectedScore_dead_band [of 1500 1500 "Num 4"] by simp
  moreover have "toFixed1 (Num 2) = ''2.0''" by code_simp
  ultimately have "toFixed1 (toNumber (getExpectedScore (Num 4) (Num 1500) (Num 1500))) = ''2.0''"
    by (simp add: toNumber_def)
  moreover have "expectedScore r
      = toFixed1 (toNumber (getExpectedScore (Num 4) (rating r) (avgOpponentRating r)))"
    unfolding r_def by (rule calculateRow_expected)
  ultimately have ex: "expectedScore r = ''2.0''" by (simp add: rk avg)
  have "parseFloat (Some ''2.0'') = Num 2" by code_simp
  then have raw: "rawChange r = Num 10" by (simp add: rawChange_def sc ex kf)
  have c1: "toFixed1 (Num 10) = ''10.0''" by code_simp
  have f1: "jsRound (jsAdd (Num 1500) (Num 10)) = Num 1510" by code_simp
  have "ratingChange r = toFixed1 (rawChange r)"
    unfolding r_def by (rule calculateRow_change)
  then have ch: "ratingChange r = ''10.0''" by (simp add: raw c1)
  have "finalRating r = jsRound (jsAdd (rating r) (rawChange r))"
    unfolding r_def by (rule calculateRow_final)
  then have fin: "finalRating r = Num 1510" by (simp only: raw rk f1)
  show ?thesis unfolding r using avg ex ch fin by simp
qed

theorem scenarioA_result_witness:
  "avgOpponentRating (calculateGroup 4 (Num 4) scenarioA ! 0) = Num 1500
   \<and> expectedScore (calculateGroup 4 (Num 4) scenarioA ! 0) = ''2.0''
   \<and> ratingChange (calculateGroup 4 (Num 4) scenarioA ! 0) = ''10.0''
   \<and> finalRating (calculateGroup 4 (Num 4) scenarioA ! 0) = Num 1510"
proof -
  have a: "0 < length scenarioA" by (simp add: scenarioA_def)
  have b: "parseIntCell (jsIndex (scenarioA ! 0) 1) = Some 1500" by code_simp
  have c: "parseIntCell (jsIndex (scenarioA ! 0) 2) = Some 20" by code_simp
  have d: "parseFloat (jsIndex (scenarioA ! 0) 7) = Num 2.5" by code_simp
  have e0: "resolveRound scenarioA (scenarioA ! 0) 0 = Some (scenarioA ! 1)" by code_simp
  have e1: "resolveRound scenarioA (scenarioA ! 0) 1 = Some (scenarioA ! 2)" by code_simp
  have e2: "resolveRound scenarioA (scenarioA ! 0) 2 = Some (scenarioA ! 3)" by code_simp
  have e3: "resolveRound scenarioA (scenarioA ! 0) 3 = Some (scenarioA ! 4)" by code_simp
  have o1: "parseIntCell (jsIndex (scenarioA ! 1) 1) = Some 1500" by code_simp
  have o2: "parseIntCell (jsIndex (scenarioA ! 2) 1) = Some 1500" by code_simp
  have o3: "parseIntCell (jsIndex (scenarioA ! 3) 1) = Some 1500" by code_simp
  have o4: "parseIntCell (jsIndex (scenarioA ! 4) 1) = Some 1500" by code_simp
  have e: "\<forall>i \<in> {0, 1, 2, 3}. \<exists>opp. resolveRound scenarioA (scenarioA ! 0) i = Some opp
            \<and> parseIntCell (jsIndex opp 1) = Some 1500"
    using e0 e1 e2 e3 o1 o2 o3 o4 by simp
  show ?thesis by (rule scenarioA_result [OF a b c d e])
qed

section \<open>Sheet names: claims\<close>

lemma suffixLoop_spec:
  "\<exists>k \<ge> i. suffixLoop b ex i = (candidate b k, finsert (candidate b k) ex)
      \<and> candidate b k |\<notin>| ex \<and> (\<forall>j. i \<le> j \<and> j < k \<longrightarrow> candidate b j |\<in>| ex)"
proof (induction b ex i rule: suffixLoop.induct)
  case (1 b ex i)
  show ?case
  proof (cases "candidate b i |\<notin>| ex")
    case True
    then have "suffixLoop b ex i = (candidate b i, finsert (candidate b i) ex)"
      by (simp add: suffixLoop.simps [of b ex i])
    then show ?thesis using True by auto
  next
    case False
    then obtain k where k: "k \<ge> i + 1"
      "suffixLoop b ex (i + 1) = (candidate b k, finsert (candidate b k) ex)"
      "candidate b k |\<notin>| ex" "\<forall>j. i + 1 \<le> j \<and> j < k \<longrightarrow> candidate b j |\<in>| ex"
      using 1 by blast
    have "suffixLoop b ex i = (candidate b k, finsert (candidate b k) ex)"
      using False k(2) by (simp add: suffixLoop.simps [of b ex i])
    moreover have "\<forall>j. i \<le> j \<and> j < k \<longrightarrow> candidate b j |\<in>| ex"
    proof (intro allI impI)
      fix j assume j: "i \<le> j \<and> j < k"
      show "candidate b j |\<in>| ex"
      proof (cases "j = i")
        case True
        then show ?thesis using False by simp
      next
        case False
        then show ?thesis using j k(4) by simp
      qed
    qed
    moreover have "i \<le> k" using k(1) by simp
    ultimately show ?thesis using k(3) by blast
  qed
qed

lemma used_candidates_bound:
  assumes "\<forall>j. i \<le> j \<and> j < k \<longrightarrow> candidate b j |\<in>| ex"
  shows "k - i \<le> fcard ex"
proof -
  have inj: "inj_on (candidate b) {i..<k}" by (meson candidate_inj inj_onI)
  have "candidate b ` {i..<k} \<subseteq> fset ex" using assms by auto
  then have "card (candidate b ` {i..<k}) \<le> card (fset ex)" by (simp add: card_mono)
  then show ?thesis using inj by (simp add: card_image fcard.rep_eq)
qed

lemma candidate_length: "k < 10 ^ 30 \<Longrightarrow> length (candidate b k) \<le> 31"
proof -
  assume "k < 10 ^ 30"
  then have "length (showNat k) \<le> 30" using showNat_length [of 30 k] by simp
  then show ?thesis by (simp add: candidate_def Let_def)
qed

lemma sanitizeSheetName_length: "length (sanitizeSheetName n) \<le> 31 \<and> sanitizeSheetName n \<noteq> []"
  by (simp add: sanitizeSheetName_def Let_def)


lemma makeUniqueSheetName_collision:
  assumes "take 31 baseName |\<in>| existing"
  shows "\<exists>k \<ge> 2. makeUniqueSheetName baseName existing
            = (candidate baseName k, finsert (candidate baseName k) existing)
          \<and> candidate baseName k |\<notin>| existing
          \<and> (\<forall>j. 2 \<le> j \<and> j < k \<longrightarrow> candidate baseName j |\<in>| existing)
          \<and> k \<le> fcard existing + 2"
proof -
  obtain k where k: "k \<ge> 2"
    "suffixLoop baseName existing 2 = (candidate baseName k, finsert (candidate baseName k) existing)"
    "candidate baseName k |\<notin>| existing"
    "\<forall>j. 2 \<le> j \<and> j < k \<longrightarrow> candidate baseName j |\<in>| existing"
    using suffixLoop_spec [of 2 baseName existing] by blast
  have "k - 2 \<le> fcard existing" using used_candidates_bound [OF k(4)] .
  then have "k \<le> fcard existing + 2" by simp
  moreover have "makeUniqueSheetName baseName existing
      = (candidate baseName k, finsert (candidate baseName k) existing)"
    using assms k(2) by (simp add: makeUniqueSheetName_def Let_def)
  ultimately show ?thesis using k(1,3,4) by blast
qed

lemma makeUniqueSheetName_free:
  assumes "take 31 baseName |\<notin>| existing"
  shows "makeUniqueSheetName baseName existing = (take 31 baseName, finsert (take 31 baseName) existing)"
  using assms by (simp add: makeUniqueSheetName_def Let_def)

lemma makeUniqueSheetName_length:
  assumes "fcard existing < 2 ^ 53"
  shows "length (fst (makeUniqueSheetName baseName existing)) \<le> 31"
proof (cases "take 31 baseName |\<in>| existing")
  case True
  then obtain k where k: "makeUniqueSheetName baseName existing
        = (candidate baseName k, finsert (candidate baseName k) existing)"
      "k \<le> fcard existing + 2"
    using makeUniqueSheetName_collision by blast
  have "k < 2 ^ 53 + 2" using k(2) assms by simp
  also have "\<dots> < (10::nat) ^ 30" by simp
  finally have "length (candidate baseName k) \<le> 31" by (rule candidate_length)
  then show ?thesis using k(1) by simp
next
  case False
  then show ?thesis by (simp add: makeUniqueSheetName_free)
qed

text \<open>
  Claim C9. A sanitized name has at most 31 characters. \<open>makeUniqueSheetName\<close> returns a
  name that was not in the set of used names and adds it to the set. When the base cut
  to 31 characters is not used yet, the result is that base. When it collides, the
  result is the base cut to fit followed by \<open>_k\<close>, where \<open>k \<ge> 2\<close> is the smallest number
  whose candidate is not used yet: the candidates for \<open>2, \<dots>, k - 1\<close> are all used, so
  \<open>k\<close> is at most the number of used names plus 2. With fewer than \<open>2^53\<close> used names
  (the range in which the counter of the source is exact) the result has at most 31
  characters, also when the base comes from \<open>sanitizeSheetName\<close>.
\<close>

theorem sheetName_unique:
  "length (sanitizeSheetName fileName) \<le> 31
   \<and> fst (makeUniqueSheetName baseName existing) |\<notin>| existing
   \<and> snd (makeUniqueSheetName baseName existing)
        = finsert (fst (makeUniqueSheetName baseName existing)) existing
   \<and> (take 31 baseName |\<notin>| existing \<longrightarrow>
        fst (makeUniqueSheetName baseName existing) = take 31 baseName)
   \<and> (take 31 baseName |\<in>| existing \<longrightarrow>
        (\<exists>k \<ge> 2. fst (makeUniqueSheetName baseName existing)
                   = take (31 - (1 + length (showNat k))) baseName @ ''_'' @ showNat k
               \<and> fst (makeUniqueSheetName baseName existing) = candidate baseName k
               \<and> (\<forall>j. 2 \<le> j \<and> j < k \<longrightarrow> candidate baseName j |\<in>| existing)
               \<and> k \<le> fcard existing + 2))
   \<and> (fcard existing < 2 ^ 53 \<longrightarrow>
        length (fst (makeUniqueSheetName baseName existing)) \<le> 31)
   \<and> (fcard existing < 2 ^ 53 \<longrightarrow>
        length (fst (makeUniqueSheetName (sanitizeSheetName fileName) existing)) \<le> 31)"
proof -
  let ?r = "makeUniqueSheetName baseName existing"
  have shape: "candidate baseName k
      = take (31 - (1 + length (showNat k))) baseName @ ''_'' @ showNat k" for k
    by (simp add: candidate_def Let_def nat_diff_distrib' max_def)
  have a: "length (sanitizeSheetName fileName) \<le> 31"
    using sanitizeSheetName_length by blast
  have b: "fst ?r |\<notin>| existing \<and> snd ?r = finsert (fst ?r) existing"
  proof (cases "take 31 baseName |\<in>| existing")
    case True
    then show ?thesis using makeUniqueSheetName_collision [OF True] by auto
  next
    case False
    then show ?thesis by (simp add: makeUniqueSheetName_free)
  qed
  have c: "fst ?r = take 31 baseName" if "take 31 baseName |\<notin>| existing"
    using that by (simp add: makeUniqueSheetName_free)
  have d: "\<exists>k \<ge> 2. fst ?r = take (31 - (1 + length (showNat k))) baseName @ ''_'' @ showNat k
               \<and> fst ?r = candidate baseName k
               \<and> (\<forall>j. 2 \<le> j \<and> j < k \<longrightarrow> candidate baseName j |\<in>| existing)
               \<and> k \<le> fcard existing + 2"
    if col: "take 31 baseName |\<in>| existing"
  proof -
    obtain k where k: "k \<ge> 2" "?r = (candidate baseName k, finsert (candidate baseName k) existing)"
      "\<forall>j. 2 \<le> j \<and> j < k \<longrightarrow> candidate baseName j |\<in>| existing"
      "k \<le> fcard existing + 2"
      using makeUniqueSheetName_collision [OF col] by blast
    have "fst ?r = candidate baseName k" using k(2) by simp
    then show ?thesis using k(1,3,4) shape [of k] by metis
  qed
  have e: "length (fst (makeUniqueSheetName b existing)) \<le> 31"
    if "fcard existing < 2 ^ 53" for b
    using that by (rule makeUniqueSheetName_length)
  show ?thesis using a b c d e by blast
qed

theorem sheetName_unique_witness:
  "fst (makeUniqueSheetName (sanitizeSheetName ''Finals.txt'') {|''Finals'', ''Finals_2''|})
     = ''Finals_3''
   \<and> length (fst (makeUniqueSheetName (sanitizeSheetName ''Finals.txt'')
        {|''Finals'', ''Finals_2''|})) \<le> 31
   \<and> fst (makeUniqueSheetName ''Finals'' {||}) = ''Finals''"
proof -
  let ?ex = "{|''Finals'', ''Finals_2''|}"
  have s: "sanitizeSheetName ''Finals.txt'' = ''Finals''" by code_simp
  have c: "fcard ?ex < 2 ^ 53" by (simp add: fcard_finsert_if fcard_fempty)
  have t: "take 31 ''Finals'' = ''Finals''" by simp
  have f: "take 31 ''Finals'' |\<notin>| {||}" by simp
  have m: "take 31 ''Finals'' |\<in>| ?ex" by simp
  have c2: "candidate ''Finals'' 2 = ''Finals_2''" by code_simp
  have c3: "candidate ''Finals'' 3 = ''Finals_3''" by code_simp
  note T = sheetName_unique [of "''Finals.txt''" "''Finals''" ?ex]
  note T2 = T [THEN conjunct2]
  note T5 = T2 [THEN conjunct2, THEN conjunct2, THEN conjunct2]
  have fresh: "fst (makeUniqueSheetName ''Finals'' ?ex) |\<notin>| ?ex"
    by (rule T2 [THEN conjunct1])
  have "\<exists>k \<ge> 2. fst (makeUniqueSheetName ''Finals'' ?ex)
                   = take (31 - (1 + length (showNat k))) ''Finals'' @ ''_'' @ showNat k
               \<and> fst (makeUniqueSheetName ''Finals'' ?ex) = candidate ''Finals'' k
               \<and> (\<forall>j. 2 \<le> j \<and> j < k \<longrightarrow> candidate ''Finals'' j |\<in>| ?ex)
               \<and> k \<le> fcard ?ex + 2"
    using T5 [THEN conjunct1] m by (rule mp)
  then obtain k where k: "k \<ge> 2"
    "fst (makeUniqueSheetName ''Finals'' ?ex) = candidate ''Finals'' k"
    "\<forall>j. 2 \<le> j \<and> j < k \<longrightarrow> candidate ''Finals'' j |\<in>| ?ex" "k \<le> fcard ?ex + 2"
    by (elim exE conjE)
  have "k \<le> 4" using k(4) by (simp add: fcard_finsert_if fcard_fempty)
  then have "k = 2 \<or> k = 3 \<or> k = 4" using k(1) by arith
  moreover have "k \<noteq> 2"
  proof
    assume "k = 2"
    then have "fst (makeUniqueSheetName ''Finals'' ?ex) = ''Finals_2''" using k(2) c2 by simp
    then show False using fresh by simp
  qed
  moreover have "k \<noteq> 4"
  proof
    assume "k = 4"
    then have j: "(2::nat) \<le> 3 \<and> 3 < k" by simp
    have "(2::nat) \<le> 3 \<and> 3 < k \<longrightarrow> candidate ''Finals'' 3 |\<in>| ?ex"
      using k(3) by (rule spec)
    then have "candidate ''Finals'' 3 |\<in>| ?ex" using j by (rule mp)
    then show False unfolding c3 by simp
  qed
  ultimately have "k = 3" by arith
  then have r: "fst (makeUniqueSheetName ''Finals'' ?ex) = ''Finals_3''" using k(2) c3 by simp
  have "length (fst (makeUniqueSheetName (sanitizeSheetName ''Finals.txt'') ?ex)) \<le> 31"
    using T5 [THEN conjunct2, THEN conjunct2] c by (rule mp)
  then have l: "length (fst (makeUniqueSheetName ''Finals'' ?ex)) \<le> 31" by (simp only: s)
  note N = sheetName_unique [of "''Finals.txt''" "''Finals''" "{||}"]
  have "fst (makeUniqueSheetName ''Finals'' {||}) = take 31 ''Finals''"
    using N [THEN conjunct2, THEN conjunct2, THEN conjunct2, THEN conjunct1] f by (rule mp)
  then have n: "fst (makeUniqueSheetName ''Finals'' {||}) = ''Finals''" by (simp only: t)
  show ?thesis unfolding s using r l n by (intro conjI)
qed

end
